theory Spec2Isabelle
  imports Main "HOL-Library.Word"
begin

section \<open>Strings and values of the host language\<close>

text \<open>
  A string of the chat widget is a sequence of 16-bit code units. A literal of the
  source is written \<open>lit ''...''\<close>.
\<close>

type_synonym code_unit = "16 word"
type_synonym js_string = "code_unit list"

definition lit :: "string \<Rightarrow> js_string" where
  "lit s = map of_char s"

text \<open>
  \<open>String.prototype.trim\<close> removes white space and line terminators from both ends:
  TAB, LF, VT, FF, CR, SP, NBSP, the space separators U+1680, U+2000 to U+200A, U+202F,
  U+205F and U+3000, the line and paragraph separators U+2028 and U+2029, and U+FEFF.
\<close>

definition isTrimmed :: "code_unit \<Rightarrow> bool" where
  "isTrimmed c \<longleftrightarrow>
     c = 0x0009 \<or> c = 0x000A \<or> c = 0x000B \<or> c = 0x000C \<or> c = 0x000D \<or> c = 0x0020 \<or>
     c = 0x00A0 \<or> c = 0x1680 \<or> (0x2000 \<le> c \<and> c \<le> 0x200A) \<or> c = 0x2028 \<or> c = 0x2029 \<or>
     c = 0x202F \<or> c = 0x205F \<or> c = 0x3000 \<or> c = 0xFEFF"

definition trim :: "js_string \<Rightarrow> js_string" where
  "trim s = rev (dropWhile isTrimmed (rev (dropWhile isTrimmed s)))"

text \<open>
  \<open>Date.now()\<close> is an integer number of milliseconds, and \<open>Number.prototype.toString\<close>
  writes an integer of that size in plain decimal digits, with a leading minus sign
  below zero. Adding 1 to a clock reading is exact.
\<close>

definition digit :: "nat \<Rightarrow> code_unit" where
  "digit d = of_nat (48 + d)"

function digits :: "nat \<Rightarrow> js_string" where
  "digits n = (if n < 10 then [digit n] else digits (n div 10) @ [digit (n mod 10)])"
  by pat_completeness auto
termination
  by (relation "measure (\<lambda>n. n)") auto

definition toString :: "int \<Rightarrow> js_string" where
  "toString i = (if i < 0 then 0x002D # digits (nat (- i)) else digits (nat i))"

text \<open>Reading a decimal numeral back.\<close>

definition undigits :: "js_string \<Rightarrow> nat" where
  "undigits s = foldl (\<lambda>a c. 10 * a + (unat c - 48)) 0 s"

text \<open>
  The values a parsed JSON body and its properties can hold. A number is carried as
  the text \<open>String(n)\<close> gives for it; an object as its own properties, the first
  binding of a name being the object's.
\<close>

datatype js_value =
    JUndefined
  | JNull
  | JBool bool
  | JNumber js_string
  | JString js_string
  | JArray "js_value list"
  | JObject "(js_string \<times> js_value) list"

text \<open>
  An exception is carried as its \<open>message\<close>, the only property the handler reads.
  Reading a property of \<open>null\<close> or \<open>undefined\<close> throws a TypeError, whose text is the
  engine's (V8's here). \<open>getProp\<close> is the read of a property name that no built-in
  prototype defines, as \<open>detail\<close> and \<open>response\<close> are.
\<close>

definition nullishReadMessage :: "js_string \<Rightarrow> js_string \<Rightarrow> js_string" where
  "nullishReadMessage what p =
     lit ''Cannot read properties of '' @ what @ lit '' (reading '' @ [0x0027] @ p @ [0x0027] @ lit '')''"

fun getProp :: "js_value \<Rightarrow> js_string \<Rightarrow> js_string + js_value" where
  "getProp JUndefined p = Inl (nullishReadMessage (lit ''undefined'') p)"
| "getProp JNull p = Inl (nullishReadMessage (lit ''null'') p)"
| "getProp (JObject kvs) p = Inr (case map_of kvs p of None \<Rightarrow> JUndefined | Some v \<Rightarrow> v)"
| "getProp v p = Inr JUndefined"

text \<open>Truthiness, as \<open>||\<close> tests it.\<close>

fun truthy :: "js_value \<Rightarrow> bool" where
  "truthy JUndefined = False"
| "truthy JNull = False"
| "truthy (JBool b) = b"
| "truthy (JNumber n) = (n \<noteq> lit ''0'' \<and> n \<noteq> lit ''NaN'')"
| "truthy (JString s) = (s \<noteq> [])"
| "truthy (JArray xs) = True"
| "truthy (JObject kvs) = True"

text \<open>
  \<open>ToString\<close>, which \<open>new Error(message)\<close> applies to its argument. An array joins its
  elements with commas, \<open>null\<close> and \<open>undefined\<close> elements as the empty string. A parsed
  object is \<open>[object Object]\<close>, unless it has an own property \<open>toString\<close>: that is no
  function, and the conversion throws a TypeError.
\<close>

definition toPrimitiveMessage :: js_string where
  "toPrimitiveMessage = lit ''Cannot convert object to primitive value''"

fun joinWith :: "js_string \<Rightarrow> js_string list \<Rightarrow> js_string" where
  "joinWith sep [] = []"
| "joinWith sep [x] = x"
| "joinWith sep (x # y # ys) = x @ sep @ joinWith sep (y # ys)"

fun sequence :: "('e + 'a) list \<Rightarrow> 'e + 'a list" where
  "sequence [] = Inr []"
| "sequence (Inl e # rs) = Inl e"
| "sequence (Inr x # rs) = (case sequence rs of Inl e \<Rightarrow> Inl e | Inr xs \<Rightarrow> Inr (x # xs))"

fun ToString :: "js_value \<Rightarrow> js_string + js_string" where
  "ToString JUndefined = Inr (lit ''undefined'')"
| "ToString JNull = Inr (lit ''null'')"
| "ToString (JBool b) = Inr (if b then lit ''true'' else lit ''false'')"
| "ToString (JNumber n) = Inr n"
| "ToString (JString s) = Inr s"
| "ToString (JArray xs) =
     (case sequence (map (\<lambda>x. if x = JUndefined \<or> x = JNull then Inr [] else ToString x) xs) of
        Inl e \<Rightarrow> Inl e
      | Inr ss \<Rightarrow> Inr (joinWith (lit '','') ss))"
| "ToString (JObject kvs) =
     (if lit ''toString'' \<in> fst ` set kvs then Inl toPrimitiveMessage
      else Inr (lit ''[object Object]''))"

section \<open>The conversation state\<close>

text \<open>
  \<open>interface Message\<close>. The body of a response is untyped in the source
  (\<open>data.response\<close> is stored as it is), so \<open>content\<close> holds a value.
\<close>

datatype role = User | Bot

record message =
  msg_id :: js_string
  role :: role
  content :: js_value

text \<open>The four \<open>useState\<close> cells of \<open>ChatInterface\<close>, and their setters.\<close>

record chat =
  messages :: "message list"
  input :: js_string
  isLoading :: bool
  error :: "js_string option"

definition setMessages :: "(message list \<Rightarrow> message list) \<Rightarrow> chat \<Rightarrow> chat" where
  "setMessages f s = s\<lparr>messages := f (messages s)\<rparr>"

definition setInput :: "js_string \<Rightarrow> chat \<Rightarrow> chat" where
  "setInput v s = s\<lparr>input := v\<rparr>"

definition setIsLoading :: "bool \<Rightarrow> chat \<Rightarrow> chat" where
  "setIsLoading b s = s\<lparr>isLoading := b\<rparr>"

definition setError :: "js_string option \<Rightarrow> chat \<Rightarrow> chat" where
  "setError e s = s\<lparr>error := e\<rparr>"

section \<open>The network and the suspended handler\<close>

text \<open>
  A call of \<open>fetch\<close>. \<open>body\<close> is the value that \<open>JSON.stringify\<close> serialises into the
  request body.
\<close>

record request =
  url :: js_string
  http_method :: js_string
  headers :: "(js_string \<times> js_string) list"
  body :: js_value

text \<open>
  \<open>handleSubmit\<close> is asynchronous: it suspends at \<open>await fetch(...)\<close> and again at
  \<open>await response.json()\<close>, where it has read \<open>response.ok\<close>. A frame is one suspended
  invocation.
\<close>

datatype frame = AwaitFetch | AwaitJson bool

text \<open>
  The component with its environment: the state of the last render, the suspended
  invocations of the handler, and the requests issued so far.
\<close>

record world =
  ui :: chat
  pending :: "frame list"
  sent :: "request list"

definition init :: world where
  "init = \<lparr>ui = \<lparr>messages = [], input = [], isLoading = False, error = None\<rparr>,
           pending = [], sent = []\<rparr>"

section \<open>\<open>handleSubmit\<close>\<close>

definition userMessage :: "int \<Rightarrow> js_string \<Rightarrow> message" where
  "userMessage now inp = \<lparr>msg_id = toString now, role = User, content = JString inp\<rparr>"

definition fetchRequest :: "js_string \<Rightarrow> request" where
  "fetchRequest inp =
     \<lparr>url = lit ''http://127.0.0.1:8000/chat'',
      http_method = lit ''POST'',
      headers = [(lit ''Content-Type'', lit ''application/json'')],
      body = JObject [(lit ''query'', JString inp)]\<rparr>"

text \<open>
  The synchronous part, up to the first \<open>await\<close>. \<open>input\<close> and \<open>isLoading\<close> are the
  constants of the render the handler closes over; \<open>now\<close> is what \<open>Date.now()\<close> returns.
\<close>

definition handleSubmit :: "int \<Rightarrow> world \<Rightarrow> world" where
  "handleSubmit now w =
     (let inp = input (ui w); loading = isLoading (ui w) in
      if trim inp = [] \<or> loading then w
      else
        let s1 = setMessages (\<lambda>prev. prev @ [userMessage now inp]) (ui w);
            s2 = setInput [] s1;
            s3 = setIsLoading True s2;
            s4 = setError None s3
        in w\<lparr>ui := s4, sent := sent w @ [fetchRequest inp], pending := pending w @ [AwaitFetch]\<rparr>)"

text \<open>The \<open>catch\<close> block, for an exception with message \<open>m\<close>, and the \<open>finally\<close> block.\<close>

definition errorMessage :: "int \<Rightarrow> js_string \<Rightarrow> message" where
  "errorMessage now m =
     \<lparr>msg_id = toString (now + 1), role = Bot, content = JString (lit ''Error: '' @ m)\<rparr>"

definition catchBlock :: "js_string \<Rightarrow> int \<Rightarrow> chat \<Rightarrow> chat" where
  "catchBlock m now s =
     (let s1 = setError (Some m) s
      in setMessages (\<lambda>prev. prev @ [errorMessage now m]) s1)"

definition finallyBlock :: "chat \<Rightarrow> chat" where
  "finallyBlock s = setIsLoading False s"

text \<open>
  \<open>throw new Error(errorData.detail || 'An unknown error occurred.')\<close>: the message of
  what is thrown, the new error's or that of a TypeError raised on the way.
\<close>

definition thrownMessage :: "js_value \<Rightarrow> js_string" where
  "thrownMessage errorData =
     (case getProp errorData (lit ''detail'') of
        Inl m \<Rightarrow> m
      | Inr detail \<Rightarrow>
          (case ToString (if truthy detail then detail
                          else JString (lit ''An unknown error occurred.'')) of
             Inl m \<Rightarrow> m
           | Inr s \<Rightarrow> s))"

definition botMessage :: "int \<Rightarrow> js_value \<Rightarrow> message" where
  "botMessage now c = \<lparr>msg_id = toString (now + 1), role = Bot, content = c\<rparr>"

text \<open>The handler from the point where \<open>response.json()\<close> has resolved with \<open>data\<close>.\<close>

definition afterJson :: "bool \<Rightarrow> js_value \<Rightarrow> int \<Rightarrow> chat \<Rightarrow> chat" where
  "afterJson ok data now s =
     (if \<not> ok then finallyBlock (catchBlock (thrownMessage data) now s)
      else
        (case getProp data (lit ''response'') of
           Inl m \<Rightarrow> finallyBlock (catchBlock m now s)
         | Inr c \<Rightarrow> finallyBlock (setMessages (\<lambda>prev. prev @ [botMessage now c]) s)))"

section \<open>Events\<close>

text \<open>
  What can happen to the component: the user edits the input (\<open>onChange\<close>, which the
  input does not deliver while it is \<open>disabled={isLoading}\<close>), the form is submitted,
  and a promise the handler awaits settles. A settlement names the frame it resumes and,
  where the handler then builds a message, the clock reading it takes. A rejection
  carries the message of its error.

  React applies the updates that one run of the handler queues together, in the order of
  the calls, and renders before the next event: an event finds the state the previous
  one left.
\<close>

datatype event =
    Change js_string
  | Submit int
  | FetchRejects nat js_string int
  | FetchResolves nat bool
  | JsonRejects nat js_string int
  | JsonResolves nat js_value int

definition dropFrame :: "nat \<Rightarrow> frame list \<Rightarrow> frame list" where
  "dropFrame k fs = take k fs @ drop (Suc k) fs"

definition frameAt :: "world \<Rightarrow> nat \<Rightarrow> frame option" where
  "frameAt w k = (if k < length (pending w) then Some (pending w ! k) else None)"

fun step :: "world \<Rightarrow> event \<Rightarrow> world option" where
  "step w (Change v) =
     (if isLoading (ui w) then None else Some (w\<lparr>ui := setInput v (ui w)\<rparr>))"
| "step w (Submit now) = Some (handleSubmit now w)"
| "step w (FetchRejects k m now) =
     (case frameAt w k of
        Some AwaitFetch \<Rightarrow>
          Some (w\<lparr>ui := finallyBlock (catchBlock m now (ui w)), pending := dropFrame k (pending w)\<rparr>)
      | _ \<Rightarrow> None)"
| "step w (FetchResolves k ok) =
     (case frameAt w k of
        Some AwaitFetch \<Rightarrow> Some (w\<lparr>pending := (pending w)[k := AwaitJson ok]\<rparr>)
      | _ \<Rightarrow> None)"
| "step w (JsonRejects k m now) =
     (case frameAt w k of
        Some (AwaitJson ok) \<Rightarrow>
          Some (w\<lparr>ui := finallyBlock (catchBlock m now (ui w)), pending := dropFrame k (pending w)\<rparr>)
      | _ \<Rightarrow> None)"
| "step w (JsonResolves k data now) =
     (case frameAt w k of
        Some (AwaitJson ok) \<Rightarrow>
          Some (w\<lparr>ui := afterJson ok data now (ui w), pending := dropFrame k (pending w)\<rparr>)
      | _ \<Rightarrow> None)"

fun run :: "world \<Rightarrow> event list \<Rightarrow> world option" where
  "run w [] = Some w"
| "run w (e # es) = (case step w e of None \<Rightarrow> None | Some w' \<Rightarrow> run w' es)"

inductive reachable :: "world \<Rightarrow> bool" where
  start: "reachable init"
| after: "reachable w \<Longrightarrow> step w e = Some w' \<Longrightarrow> reachable w'"

text \<open>The events with which an invocation of \<open>handleSubmit\<close> runs to its end.\<close>

fun completes :: "event \<Rightarrow> bool" where
  "completes (FetchRejects k m now) = True"
| "completes (JsonRejects k m now) = True"
| "completes (JsonResolves k data now) = True"
| "completes e = False"

text \<open>
  The clock reading an event carries, and the runs in which the clock advances by more
  than one millisecond from each reading to the next (all of them above \<open>lo\<close>).
\<close>

fun reading :: "event \<Rightarrow> int option" where
  "reading (Submit now) = Some now"
| "reading (FetchRejects k m now) = Some now"
| "reading (JsonRejects k m now) = Some now"
| "reading (JsonResolves k data now) = Some now"
| "reading e = None"

fun spaced :: "int \<Rightarrow> event list \<Rightarrow> bool" where
  "spaced lo [] = True"
| "spaced lo (e # es) =
     (case reading e of None \<Rightarrow> spaced lo es | Some t \<Rightarrow> lo < t \<and> spaced (t + 1) es)"

section \<open>An invariant of the reachable states\<close>

text \<open>The requests that the user messages of a transcript stand for, one each, in order.\<close>

definition userRequests :: "message list \<Rightarrow> request list" where
  "userRequests ms =
     map (\<lambda>m. \<lparr>url = lit ''http://127.0.0.1:8000/chat'', http_method = lit ''POST'',
               headers = [(lit ''Content-Type'', lit ''application/json'')],
               body = JObject [(lit ''query'', content m)]\<rparr>)
       (filter (\<lambda>m. role m = User) ms)"

definition invariant :: "world \<Rightarrow> bool" where
  "invariant w \<longleftrightarrow>
     length (pending w) \<le> 1 \<and>
     isLoading (ui w) = (pending w \<noteq> []) \<and>
     isLoading (ui w) = (messages (ui w) \<noteq> [] \<and> role (last (messages (ui w))) = User) \<and>
     (isLoading (ui w) \<longrightarrow> input (ui w) = []) \<and>
     sent w = userRequests (messages (ui w))"

text \<open>The ids of the transcript are distinct, and numerals of numbers up to \<open>lo\<close>.\<close>

definition idsUpTo :: "int \<Rightarrow> world \<Rightarrow> bool" where
  "idsUpTo lo w \<longleftrightarrow>
     distinct (map msg_id (messages (ui w))) \<and>
     (\<forall>m\<in>set (messages (ui w)). \<exists>n\<le>lo. msg_id m = toString n)"

section \<open>Basic facts\<close>

declare digits.simps [simp del]

lemmas setters = setMessages_def setInput_def setIsLoading_def setError_def

lemmas handler_defs = handleSubmit_def catchBlock_def finallyBlock_def afterJson_def
  userMessage_def errorMessage_def botMessage_def fetchRequest_def Let_def

lemmas run_defs = handler_defs setters lit_def trim_def isTrimmed_def toString_def digit_def
  digits.simps init_def frameAt_def dropFrame_def thrownMessage_def

lemma dropWhile_all: "(\<forall>x\<in>set (dropWhile P s). P x) \<longleftrightarrow> (\<forall>x\<in>set s. P x)"
  by (induction s) auto

lemma trim_Nil_iff: "trim s = [] \<longleftrightarrow> (\<forall>c\<in>set s. isTrimmed c)"
  by (simp add: trim_def dropWhile_eq_Nil_conv dropWhile_all)

lemma handleSubmit_accepts:
  assumes "trim (input (ui w)) \<noteq> []" and "\<not> isLoading (ui w)"
  shows "handleSubmit now w =
    w\<lparr>ui := (ui w)\<lparr>messages := messages (ui w) @
                 [\<lparr>msg_id = toString now, role = User, content = JString (input (ui w))\<rparr>],
               input := [], isLoading := True, error := None\<rparr>,
      sent := sent w @ [fetchRequest (input (ui w))],
      pending := pending w @ [AwaitFetch]\<rparr>"
  using assms by (simp add: handleSubmit_def userMessage_def setters Let_def)

lemma handleSubmit_ignores:
  "trim (input (ui w)) = [] \<or> isLoading (ui w) \<Longrightarrow> handleSubmit now w = w"
  by (auto simp: handleSubmit_def Let_def)

lemma dropFrame_update: "dropFrame k (fs[k := f]) = dropFrame k fs"
  by (simp add: dropFrame_def)

lemma frameAt_single:
  "length (pending w) \<le> 1 \<Longrightarrow> frameAt w k = Some f \<Longrightarrow> k = 0 \<and> pending w = [f]"
  by (cases "pending w") (auto simp: frameAt_def split: if_splits)

lemma step_completes_idle:
  "step w e = Some w' \<Longrightarrow> completes e \<Longrightarrow> \<not> isLoading (ui w') \<and> input (ui w') = input (ui w)"
  by (cases e)
    (auto simp: handler_defs setters split: if_splits option.splits frame.splits sum.splits)

text \<open>The transcript only grows, at its end: no step reorders, changes or removes a message.\<close>

lemma step_messages_extend:
  "step w e = Some w' \<Longrightarrow> \<exists>rest. messages (ui w') = messages (ui w) @ rest"
  by (cases e)
    (auto simp: handler_defs setters split: if_splits option.splits frame.splits sum.splits)

lemma run_messages_extend:
  "run w es = Some w' \<Longrightarrow> \<exists>rest. messages (ui w') = messages (ui w) @ rest"
proof (induction es arbitrary: w)
  case Nil
  then show ?case by simp
next
  case (Cons e es)
  then obtain w1 where w1: "step w e = Some w1" "run w1 es = Some w'"
    by (auto split: option.splits)
  from step_messages_extend [OF w1(1)] Cons.IH [OF w1(2)] show ?case by auto
qed

lemma reachable_run: "reachable w \<Longrightarrow> run w es = Some w' \<Longrightarrow> reachable w'"
proof (induction es arbitrary: w)
  case Nil
  then show ?case by simp
next
  case (Cons e es)
  then obtain w1 where w1: "step w e = Some w1" "run w1 es = Some w'"
    by (auto split: option.splits)
  from Cons.prems(1) w1(1) have "reachable w1" by (rule reachable.after)
  with w1(2) show ?case by (rule Cons.IH [rotated])
qed

lemma reachable_init_run: "run init es = Some w \<Longrightarrow> reachable w"
  by (rule reachable_run [OF reachable.start])

lemma invariant_init: "invariant init"
  by (simp add: invariant_def init_def userRequests_def)

lemma invariant_step:
  assumes "invariant w" and "step w e = Some w'"
  shows "invariant w'"
proof (cases e)
  case (Change v)
  with assms show ?thesis
    by (auto simp: invariant_def setters split: if_splits)
next
  case (Submit now)
  with assms show ?thesis
    by (auto simp: invariant_def handler_defs setters userRequests_def split: if_splits)
next
  case (FetchRejects k m now)
  with assms obtain f where f: "frameAt w k = Some f"
    by (auto split: option.splits)
  from assms(1) have "length (pending w) \<le> 1" by (simp add: invariant_def)
  from frameAt_single [OF this f] have "k = 0" "pending w = [f]" by simp_all
  with assms FetchRejects f show ?thesis
    by (auto simp: invariant_def handler_defs setters userRequests_def dropFrame_def
        split: frame.splits)
next
  case (FetchResolves k ok)
  with assms obtain f where f: "frameAt w k = Some f"
    by (auto split: option.splits)
  from assms(1) have "length (pending w) \<le> 1" by (simp add: invariant_def)
  from frameAt_single [OF this f] have "k = 0" "pending w = [f]" by simp_all
  with assms FetchResolves f show ?thesis
    by (auto simp: invariant_def split: frame.splits)
next
  case (JsonRejects k m now)
  with assms obtain f where f: "frameAt w k = Some f"
    by (auto split: option.splits)
  from assms(1) have "length (pending w) \<le> 1" by (simp add: invariant_def)
  from frameAt_single [OF this f] have "k = 0" "pending w = [f]" by simp_all
  with assms JsonRejects f show ?thesis
    by (auto simp: invariant_def handler_defs setters userRequests_def dropFrame_def
        split: frame.splits)
next
  case (JsonResolves k data now)
  with assms obtain f where f: "frameAt w k = Some f"
    by (auto split: option.splits)
  from assms(1) have "length (pending w) \<le> 1" by (simp add: invariant_def)
  from frameAt_single [OF this f] have "k = 0" "pending w = [f]" by simp_all
  with assms JsonResolves f show ?thesis
    by (auto simp: invariant_def handler_defs setters userRequests_def dropFrame_def
        split: frame.splits sum.splits if_splits)
qed

lemma reachable_invariant: "reachable w \<Longrightarrow> invariant w"
  by (induction rule: reachable.induct) (auto intro: invariant_init invariant_step)






section \<open>Message ids\<close>

text \<open>
  \<open>toString\<close> is injective, so two ids are equal only when the numbers are. Ids are clock
  readings (plus one for a reply), so they are distinct in a run whose clock advances by
  more than one millisecond between readings; the source has nothing else to keep them
  apart.
\<close>

lemma unat_digit: "d < 10 \<Longrightarrow> unat (digit d) = 48 + d"
  by (simp add: digit_def unat_of_nat del: of_nat_add)

lemma undigits_snoc: "undigits (s @ [c]) = 10 * undigits s + (unat c - 48)"
  by (simp add: undigits_def)

lemma undigits_digits: "undigits (digits n) = n"
proof (induction n rule: digits.induct)
  case (1 n)
  show ?case
  proof (cases "n < 10")
    case True
    then show ?thesis
      by (simp add: digits.simps [of n] undigits_def unat_digit)
  next
    case False
    with "1" have "undigits (digits (n div 10)) = n div 10" by simp
    with False show ?thesis
      by (simp add: digits.simps [of n] undigits_snoc unat_digit)
  qed
qed

lemma digits_inj: "digits a = digits b \<Longrightarrow> a = b"
  by (metis undigits_digits)

lemma digits_hd: "\<exists>d s. d < 10 \<and> digits n = digit d # s"
proof (induction n rule: digits.induct)
  case (1 n)
  show ?case
  proof (cases "n < 10")
    case True
    then show ?thesis by (auto simp: digits.simps [of n])
  next
    case False
    with "1" obtain d s where "d < 10" "digits (n div 10) = digit d # s" by auto
    with False show ?thesis by (auto simp: digits.simps [of n])
  qed
qed

lemma digits_not_minus: "digits n \<noteq> 0x002D # s"
proof
  assume a: "digits n = 0x002D # s"
  from digits_hd [of n] obtain d s' where d: "d < 10" "digits n = digit d # s'" by auto
  with a have "digit d = 0x002D" by simp
  then have "unat (digit d) = unat (0x002D :: code_unit)" by simp
  with d(1) show False by (simp add: unat_digit)
qed

lemma toString_inj: "toString a = toString b \<Longrightarrow> a = b"
proof -
  assume eq: "toString a = toString b"
  show "a = b"
  proof (cases "a < 0")
    case True
    note a = this
    show ?thesis
    proof (cases "b < 0")
      case True
      with a eq have "digits (nat (- a)) = digits (nat (- b))" by (simp add: toString_def)
      then have "nat (- a) = nat (- b)" by (rule digits_inj)
      with a True show ?thesis by simp
    next
      case False
      with a eq digits_not_minus [of "nat b" "digits (nat (- a))"] show ?thesis
        by (simp add: toString_def)
    qed
  next
    case False
    note a = this
    show ?thesis
    proof (cases "b < 0")
      case True
      with a eq digits_not_minus [of "nat a" "digits (nat (- b))"] show ?thesis
        by (simp add: toString_def)
    next
      case False
      with a eq have "digits (nat a) = digits (nat b)" by (simp add: toString_def)
      then have "nat a = nat b" by (rule digits_inj)
      with a False show ?thesis by simp
    qed
  qed
qed

lemma step_new_ids:
  assumes "step w e = Some w'"
  shows "messages (ui w') = messages (ui w)
       \<or> (\<exists>t m. reading e = Some t \<and> messages (ui w') = messages (ui w) @ [m]
             \<and> (msg_id m = toString t \<or> msg_id m = toString (t + 1)))"
  using assms
  by (cases e)
    (auto simp: handler_defs setters split: if_splits option.splits frame.splits sum.splits)

lemma idsUpTo_mono: "idsUpTo lo w \<Longrightarrow> lo \<le> hi \<Longrightarrow> idsUpTo hi w"
  unfolding idsUpTo_def by (meson order_trans)

lemma step_idsUpTo:
  assumes "step w e = Some w'" and "idsUpTo lo w"
  shows "case reading e of None \<Rightarrow> idsUpTo lo w' | Some t \<Rightarrow> lo < t \<longrightarrow> idsUpTo (t + 1) w'"
proof -
  from step_new_ids [OF assms(1)]
  consider (same) "messages (ui w') = messages (ui w)"
    | (new) t m where "reading e = Some t" "messages (ui w') = messages (ui w) @ [m]"
        "msg_id m = toString t \<or> msg_id m = toString (t + 1)"
    by blast
  then show ?thesis
  proof cases
    case same
    with assms(2) have "idsUpTo lo w'" by (simp add: idsUpTo_def)
    then show ?thesis
      by (auto split: option.splits intro: idsUpTo_mono)
  next
    case new
    have "idsUpTo (t + 1) w'" if "lo < t"
    proof -
      have fresh: "msg_id m \<notin> set (map msg_id (messages (ui w)))"
      proof
        assume "msg_id m \<in> set (map msg_id (messages (ui w)))"
        then obtain m' where "m' \<in> set (messages (ui w))" "msg_id m' = msg_id m" by auto
        with assms(2) obtain n where n: "n \<le> lo" "msg_id m = toString n"
          unfolding idsUpTo_def by metis
        with new(3) have "n = t \<or> n = t + 1" by (auto dest: toString_inj)
        with n(1) that show False by auto
      qed
      from assms(2) have old: "\<forall>m\<in>set (messages (ui w)). \<exists>n\<le>t + 1. msg_id m = toString n"
        unfolding idsUpTo_def using that by (meson order_trans less_imp_le zle_add1_eq_le le_less)
      from new(3) have "\<exists>n\<le>t + 1. msg_id m = toString n"
      proof
        assume "msg_id m = toString t"
        then show ?thesis by (intro exI [of _ t]) simp
      next
        assume "msg_id m = toString (t + 1)"
        then show ?thesis by (intro exI [of _ "t + 1"]) simp
      qed
      with fresh old assms(2) new(2) show ?thesis
        by (auto simp: idsUpTo_def)
    qed
    with new(1) show ?thesis by simp
  qed
qed

lemma run_idsUpTo:
  "run w es = Some w' \<Longrightarrow> spaced lo es \<Longrightarrow> idsUpTo lo w \<Longrightarrow> \<exists>hi. idsUpTo hi w'"
proof (induction es arbitrary: w lo)
  case Nil
  then show ?case by auto
next
  case (Cons e es)
  then obtain w1 where w1: "step w e = Some w1" "run w1 es = Some w'"
    by (auto split: option.splits)
  show ?case
  proof (cases "reading e")
    case None
    with step_idsUpTo [OF w1(1) Cons.prems(3)] have "idsUpTo lo w1" by simp
    moreover from None Cons.prems(2) have "spaced lo es" by simp
    ultimately show ?thesis using Cons.IH [OF w1(2)] by blast
  next
    case (Some t)
    with Cons.prems(2) have t: "lo < t" "spaced (t + 1) es" by simp_all
    with Some step_idsUpTo [OF w1(1) Cons.prems(3)] have "idsUpTo (t + 1) w1" by simp
    with t(2) show ?thesis using Cons.IH [OF w1(2)] by blast
  qed
qed

lemma ids_distinct_if_clock_advances:
  "run init es = Some w \<Longrightarrow> spaced lo es \<Longrightarrow> distinct (map msg_id (messages (ui w)))"
proof -
  assume "run init es = Some w" "spaced lo es"
  moreover have "idsUpTo lo init" by (simp add: idsUpTo_def init_def)
  ultimately obtain hi where "idsUpTo hi w" using run_idsUpTo by blast
  then show ?thesis by (simp add: idsUpTo_def)
qed

section \<open>The claims\<close>

text \<open>
  C1. When the draft is not empty after trimming and no request is in flight, a
  submission appends exactly one message, of role \<open>user\<close>, whose content is the draft
  as typed (not trimmed). Whatever happens afterwards, the transcript keeps that
  message at that place, so a reply or an error of this submission stands after it.
\<close>

theorem submit_appends_user_message:
  assumes "trim (input (ui w)) \<noteq> []" and "\<not> isLoading (ui w)"
  shows "messages (ui (handleSubmit now w)) =
           messages (ui w) @ [\<lparr>msg_id = toString now, role = User, content = JString (input (ui w))\<rparr>]
       \<and> (\<forall>es w'. run w (Submit now # es) = Some w' \<longrightarrow>
            (\<exists>rest. messages (ui w') =
               messages (ui w) @ \<lparr>msg_id = toString now, role = User, content = JString (input (ui w))\<rparr> # rest))"
proof (intro conjI allI impI)
  show first: "messages (ui (handleSubmit now w)) =
           messages (ui w) @ [\<lparr>msg_id = toString now, role = User, content = JString (input (ui w))\<rparr>]"
    by (simp add: handleSubmit_accepts [OF assms])
  fix es w'
  assume "run w (Submit now # es) = Some w'"
  then have "run (handleSubmit now w) es = Some w'" by simp
  from run_messages_extend [OF this] first
  show "\<exists>rest. messages (ui w') =
      messages (ui w) @ \<lparr>msg_id = toString now, role = User, content = JString (input (ui w))\<rparr> # rest"
    by auto
qed

text \<open>C1 at a concrete run.\<close>

theorem submit_appends_user_message_witness:
  "trim (input (ui (init\<lparr>ui := setInput (lit '' hello '') (ui init)\<rparr>))) \<noteq> []
   \<and> \<not> isLoading (ui (init\<lparr>ui := setInput (lit '' hello '') (ui init)\<rparr>))
   \<and> messages (ui (handleSubmit 1000 (init\<lparr>ui := setInput (lit '' hello '') (ui init)\<rparr>))) =
       [\<lparr>msg_id = lit ''1000'', role = User, content = JString (lit '' hello '')\<rparr>]"
proof -
  have h1: "trim (input (ui (init\<lparr>ui := setInput (lit '' hello '') (ui init)\<rparr>))) \<noteq> []"
    by (simp add: run_defs)
  have h2: "\<not> isLoading (ui (init\<lparr>ui := setInput (lit '' hello '') (ui init)\<rparr>))"
    by (simp add: run_defs)
  from submit_appends_user_message [OF h1 h2, of 1000] h1 h2 show ?thesis
    by (simp add: run_defs)
qed

text \<open>
  C2. When the draft is empty or holds only white space, a submission changes nothing:
  transcript, draft, in-flight flag, last error, suspended invocations and the requests
  issued are what they were.
\<close>

theorem submit_blank_is_noop: "\<forall>c\<in>set (input (ui w)). isTrimmed c \<Longrightarrow> step w (Submit now) = Some w"
  by (simp add: handleSubmit_ignores trim_Nil_iff)

text \<open>C2 at a draft of a space, a tab and a no-break space.\<close>

theorem submit_blank_is_noop_witness:
  "isTrimmed 0x0020 \<and> isTrimmed 0x0009 \<and> isTrimmed 0x00A0
   \<and> step (init\<lparr>ui := setInput [0x0020, 0x0009, 0x00A0] (ui init)\<rparr>) (Submit 1000) =
       Some (init\<lparr>ui := setInput [0x0020, 0x0009, 0x00A0] (ui init)\<rparr>)"
proof -
  have c: "isTrimmed 0x0020 \<and> isTrimmed 0x0009 \<and> isTrimmed 0x00A0"
    by (simp add: isTrimmed_def)
  then have h: "\<forall>c\<in>set (input (ui (init\<lparr>ui := setInput [0x0020, 0x0009, 0x00A0] (ui init)\<rparr>))). isTrimmed c"
    by (simp add: setInput_def)
  from submit_blank_is_noop [OF h, of 1000] c show ?thesis by simp
qed

text \<open>
  C3. While the in-flight flag is set, a submission changes nothing (no message, no
  request), and in every reachable state at most one invocation of the handler is
  awaiting the network.
\<close>

theorem submit_in_flight_is_noop:
  "(isLoading (ui w) \<longrightarrow> step w (Submit now) = Some w) \<and> (reachable w \<longrightarrow> length (pending w) \<le> 1)"
  using reachable_invariant [of w] by (auto simp: handleSubmit_ignores invariant_def)

text \<open>C3 at a concrete run.\<close>

theorem submit_in_flight_is_noop_witness:
  "\<exists>w. run init [Change (lit ''hi''), Submit 1000] = Some w \<and> reachable w \<and> isLoading (ui w)
     \<and> step w (Submit 1001) = Some w \<and> length (pending w) \<le> 1"
proof -
  let ?w = "handleSubmit 1000 (init\<lparr>ui := setInput (lit ''hi'') (ui init)\<rparr>)"
  have r: "run init [Change (lit ''hi''), Submit 1000] = Some ?w"
    by (simp add: init_def)
  have l: "isLoading (ui ?w)"
    by (simp add: run_defs)
  from submit_in_flight_is_noop [of ?w 1001] l r reachable_init_run [OF r]
  show ?thesis by blast
qed

text \<open>
  C4. In every reachable state the in-flight flag is set exactly when the last message of
  the transcript is a user message, which is exactly when an invocation is awaiting the
  network. An accepted submission sets the flag, the arrival of the response headers
  keeps it, and every completion (a reply, an error response, a rejection) clears it.
\<close>

theorem in_flight_flag:
  assumes "reachable w"
  shows "(isLoading (ui w) \<longleftrightarrow> messages (ui w) \<noteq> [] \<and> role (last (messages (ui w))) = User)
       \<and> (isLoading (ui w) \<longleftrightarrow> pending w \<noteq> [])
       \<and> (trim (input (ui w)) \<noteq> [] \<and> \<not> isLoading (ui w) \<longrightarrow> isLoading (ui (handleSubmit now w)))
       \<and> (\<forall>k ok w'. step w (FetchResolves k ok) = Some w' \<longrightarrow> isLoading (ui w'))
       \<and> (\<forall>e w'. step w e = Some w' \<and> completes e \<longrightarrow> \<not> isLoading (ui w'))"
proof -
  from assms have inv: "invariant w" by (rule reachable_invariant)
  have a: "isLoading (ui w) \<longleftrightarrow> messages (ui w) \<noteq> [] \<and> role (last (messages (ui w))) = User"
    using inv unfolding invariant_def by blast
  have b: "isLoading (ui w) \<longleftrightarrow> pending w \<noteq> []"
    using inv unfolding invariant_def by blast
  have c: "trim (input (ui w)) \<noteq> [] \<and> \<not> isLoading (ui w) \<longrightarrow> isLoading (ui (handleSubmit now w))"
    by (simp add: handleSubmit_accepts)
  have d: "\<forall>k ok w'. step w (FetchResolves k ok) = Some w' \<longrightarrow> isLoading (ui w')"
    using b by (auto simp: frameAt_def split: option.splits frame.splits if_splits)
  have e: "\<forall>e w'. step w e = Some w' \<and> completes e \<longrightarrow> \<not> isLoading (ui w')"
    using step_completes_idle by blast
  from a b c d e show ?thesis by blast
qed

text \<open>C4 at a concrete run.\<close>

theorem in_flight_flag_witness:
  "\<exists>w w'. run init [Change (lit ''hi''), Submit 1000] = Some w \<and> reachable w
     \<and> isLoading (ui w) \<and> role (last (messages (ui w))) = User \<and> pending w \<noteq> []
     \<and> step w (FetchRejects 0 (lit ''Failed to fetch'') 1500) = Some w'
     \<and> completes (FetchRejects 0 (lit ''Failed to fetch'') 1500)
     \<and> \<not> isLoading (ui w')"
proof -
  let ?w = "handleSubmit 1000 (init\<lparr>ui := setInput (lit ''hi'') (ui init)\<rparr>)"
  have r: "run init [Change (lit ''hi''), Submit 1000] = Some ?w"
    by (simp add: init_def)
  have l: "isLoading (ui ?w)"
    by (simp add: run_defs)
  have "step ?w (FetchRejects 0 (lit ''Failed to fetch'') 1500) \<noteq> None"
    by (simp add: run_defs)
  then obtain w' where s: "step ?w (FetchRejects 0 (lit ''Failed to fetch'') 1500) = Some w'"
    by auto
  have c: "completes (FetchRejects 0 (lit ''Failed to fetch'') 1500)"
    by simp
  from in_flight_flag [OF reachable_init_run [OF r], of 1001] l s c r reachable_init_run [OF r]
  show ?thesis by blast
qed

text \<open>
  C5. In every reachable state the requests issued are one per user message of the
  transcript, in order: each a POST to the chat endpoint with content type JSON, whose
  body is the object with the one property \<open>query\<close> holding the text of that message.
  An accepted submission issues that request with the draft it read when it started,
  although it clears the draft; a submission that is ignored issues none, and no other
  event issues one.
\<close>

theorem one_request_per_submission:
  assumes "reachable w"
  shows "sent w =
           map (\<lambda>m. \<lparr>url = lit ''http://127.0.0.1:8000/chat'', http_method = lit ''POST'',
                     headers = [(lit ''Content-Type'', lit ''application/json'')],
                     body = JObject [(lit ''query'', content m)]\<rparr>)
             (filter (\<lambda>m. role m = User) (messages (ui w)))
       \<and> (trim (input (ui w)) \<noteq> [] \<and> \<not> isLoading (ui w) \<longrightarrow>
            sent (handleSubmit now w) =
              sent w @ [\<lparr>url = lit ''http://127.0.0.1:8000/chat'', http_method = lit ''POST'',
                         headers = [(lit ''Content-Type'', lit ''application/json'')],
                         body = JObject [(lit ''query'', JString (input (ui w)))]\<rparr>]
            \<and> input (ui (handleSubmit now w)) = [])
       \<and> (trim (input (ui w)) = [] \<or> isLoading (ui w) \<longrightarrow> sent (handleSubmit now w) = sent w)
       \<and> (\<forall>e w'. step w e = Some w' \<and> (\<forall>t. e \<noteq> Submit t) \<longrightarrow> sent w' = sent w)"
proof -
  from assms have "invariant w" by (rule reachable_invariant)
  then have a: "sent w = userRequests (messages (ui w))"
    unfolding invariant_def by blast
  have b: "trim (input (ui w)) \<noteq> [] \<and> \<not> isLoading (ui w) \<longrightarrow>
            sent (handleSubmit now w) =
              sent w @ [\<lparr>url = lit ''http://127.0.0.1:8000/chat'', http_method = lit ''POST'',
                         headers = [(lit ''Content-Type'', lit ''application/json'')],
                         body = JObject [(lit ''query'', JString (input (ui w)))]\<rparr>]
            \<and> input (ui (handleSubmit now w)) = []"
    by (simp add: handleSubmit_accepts fetchRequest_def)
  have c: "trim (input (ui w)) = [] \<or> isLoading (ui w) \<longrightarrow> sent (handleSubmit now w) = sent w"
    using handleSubmit_ignores [of w now] by auto
  have d: "\<forall>e w'. step w e = Some w' \<and> (\<forall>t. e \<noteq> Submit t) \<longrightarrow> sent w' = sent w"
  proof (intro allI impI)
    fix e w'
    assume "step w e = Some w' \<and> (\<forall>t. e \<noteq> Submit t)"
    then show "sent w' = sent w"
      by (cases e) (auto split: if_splits option.splits frame.splits)
  qed
  from a b c d show ?thesis unfolding userRequests_def by blast
qed

text \<open>C5 at a concrete run.\<close>

theorem one_request_per_submission_witness:
  "\<exists>w. run init [Change (lit ''hi''), Submit 1000] = Some w \<and> reachable w
     \<and> sent w = [\<lparr>url = lit ''http://127.0.0.1:8000/chat'', http_method = lit ''POST'',
                   headers = [(lit ''Content-Type'', lit ''application/json'')],
                   body = JObject [(lit ''query'', JString (lit ''hi''))]\<rparr>]
     \<and> input (ui w) = []"
proof -
  let ?w0 = "init\<lparr>ui := setInput (lit ''hi'') (ui init)\<rparr>"
  have r0: "run init [Change (lit ''hi'')] = Some ?w0"
    by (simp add: init_def)
  have g: "trim (input (ui ?w0)) \<noteq> [] \<and> \<not> isLoading (ui ?w0)"
    by (simp add: run_defs)
  have r: "run init [Change (lit ''hi''), Submit 1000] = Some (handleSubmit 1000 ?w0)"
    by (simp add: init_def)
  have e: "sent ?w0 = [] \<and> input (ui ?w0) = lit ''hi''"
    by (simp add: run_defs)
  from one_request_per_submission [OF reachable_init_run [OF r0], of 1000] g e r reachable_init_run [OF r]
  show ?thesis by simp
qed

text \<open>
  C6. When the response has a success status and its body is an object whose property
  \<open>response\<close> is a string, exactly one message is appended, of role \<open>bot\<close> with that
  string as content, the in-flight flag is cleared and nothing else changes.
\<close>

theorem success_appends_reply:
  assumes "frameAt w k = Some AwaitFetch"
    and "map_of kvs (lit ''response'') = Some (JString r)"
  shows "run w [FetchResolves k True, JsonResolves k (JObject kvs) now] =
    Some (w\<lparr>ui := (ui w)\<lparr>messages := messages (ui w) @
                   [\<lparr>msg_id = toString (now + 1), role = Bot, content = JString r\<rparr>],
                 isLoading := False\<rparr>,
            pending := dropFrame k (pending w)\<rparr>)"
  using assms
  by (auto simp: frameAt_def dropFrame_update afterJson_def finallyBlock_def botMessage_def
      setters split: if_splits)

text \<open>C6 at a concrete run.\<close>

theorem success_appends_reply_witness:
  "\<exists>w. run init [Change (lit ''What is the capital of France?''), Submit 1000] = Some w
     \<and> frameAt w 0 = Some AwaitFetch
     \<and> map_of [(lit ''response'', JString (lit ''Paris is the capital.''))] (lit ''response'') =
         Some (JString (lit ''Paris is the capital.''))
     \<and> run w [FetchResolves 0 True,
          JsonResolves 0 (JObject [(lit ''response'', JString (lit ''Paris is the capital.''))]) 2000] =
        Some (w\<lparr>ui := (ui w)\<lparr>messages := messages (ui w) @
                   [\<lparr>msg_id = lit ''2001'', role = Bot,
                     content = JString (lit ''Paris is the capital.'')\<rparr>],
                 isLoading := False\<rparr>,
               pending := []\<rparr>)"
proof -
  let ?w = "handleSubmit 1000 (init\<lparr>ui := setInput (lit ''What is the capital of France?'') (ui init)\<rparr>)"
  have r: "run init [Change (lit ''What is the capital of France?''), Submit 1000] = Some ?w"
    by (simp add: init_def)
  have f: "frameAt ?w 0 = Some AwaitFetch"
    by (simp add: run_defs)
  have m: "map_of [(lit ''response'', JString (lit ''Paris is the capital.''))] (lit ''response'') =
         Some (JString (lit ''Paris is the capital.''))"
    by simp
  have d: "dropFrame 0 (pending ?w) = [] \<and> toString (2000 + 1) = lit ''2001''"
    by (simp add: run_defs)
  from success_appends_reply [OF f m, of 2000] r f m d
  show ?thesis by simp
qed




text \<open>
  C8. When \<open>fetch\<close> rejects, exactly one message is appended, of role \<open>bot\<close> with content
  \<open>Error: \<close> followed by the message of the rejection, the last error is that message
  and the in-flight flag is cleared. The widget is usable afterwards: the user can type
  a new draft, and submitting it appends a user message and issues a request.
\<close>

theorem transport_failure_appends_error:
  assumes "frameAt w k = Some AwaitFetch"
  shows "step w (FetchRejects k m now) =
    Some (w\<lparr>ui := (ui w)\<lparr>messages := messages (ui w) @
                   [\<lparr>msg_id = toString (now + 1), role = Bot,
                     content = JString (lit ''Error: '' @ m)\<rparr>],
                 isLoading := False, error := Some m\<rparr>,
            pending := dropFrame k (pending w)\<rparr>)
    \<and> (\<forall>w' v t. step w (FetchRejects k m now) = Some w' \<and> trim v \<noteq> [] \<longrightarrow>
         (\<exists>w''. run w' [Change v, Submit t] = Some w''
            \<and> messages (ui w'') =
                messages (ui w') @ [\<lparr>msg_id = toString t, role = User, content = JString v\<rparr>]
            \<and> sent w'' = sent w' @ [fetchRequest v]
            \<and> isLoading (ui w'')))"
  using assms
  by (auto simp: handleSubmit_def userMessage_def finallyBlock_def catchBlock_def
      errorMessage_def setters Let_def)

text \<open>C8 at a concrete run.\<close>

theorem transport_failure_appends_error_witness:
  "\<exists>w w'. run init [Change (lit ''hi''), Submit 1000] = Some w
     \<and> frameAt w 0 = Some AwaitFetch
     \<and> step w (FetchRejects 0 (lit ''Failed to fetch'') 1500) = Some w'
     \<and> messages (ui w') = messages (ui w) @
          [\<lparr>msg_id = lit ''1501'', role = Bot, content = JString (lit ''Error: Failed to fetch'')\<rparr>]
     \<and> error (ui w') = Some (lit ''Failed to fetch'')
     \<and> \<not> isLoading (ui w')
     \<and> trim (lit ''again'') \<noteq> []
     \<and> (\<exists>w''. run w' [Change (lit ''again''), Submit 3000] = Some w''
           \<and> messages (ui w'') = messages (ui w') @
                [\<lparr>msg_id = lit ''3000'', role = User, content = JString (lit ''again'')\<rparr>]
           \<and> sent w'' = sent w' @ [fetchRequest (lit ''again'')]
           \<and> isLoading (ui w''))"
proof -
  let ?w = "handleSubmit 1000 (init\<lparr>ui := setInput (lit ''hi'') (ui init)\<rparr>)"
  have r: "run init [Change (lit ''hi''), Submit 1000] = Some ?w"
    by (simp add: init_def)
  have f: "frameAt ?w 0 = Some AwaitFetch"
    by (simp add: run_defs)
  have t: "trim (lit ''again'') \<noteq> []"
    by (simp add: run_defs)
  have d: "toString (1500 + 1) = lit ''1501'' \<and> toString 3000 = lit ''3000''
      \<and> lit ''Error: '' @ lit ''Failed to fetch'' = lit ''Error: Failed to fetch''"
    by (simp add: run_defs)
  note inst = transport_failure_appends_error [OF f, of "lit ''Failed to fetch''" 1500]
  from inst obtain w' where s: "step ?w (FetchRejects 0 (lit ''Failed to fetch'') 1500) = Some w'"
    and m: "messages (ui w') = messages (ui ?w) @
          [\<lparr>msg_id = lit ''1501'', role = Bot, content = JString (lit ''Error: Failed to fetch'')\<rparr>]"
    and e: "error (ui w') = Some (lit ''Failed to fetch'')"
    and l: "\<not> isLoading (ui w')"
    using d by (simp del: step.simps)
  from inst s t have "\<exists>w''. run w' [Change (lit ''again''), Submit 3000] = Some w''
           \<and> messages (ui w'') = messages (ui w') @
                [\<lparr>msg_id = toString 3000, role = User, content = JString (lit ''again'')\<rparr>]
           \<and> sent w'' = sent w' @ [fetchRequest (lit ''again'')]
           \<and> isLoading (ui w'')"
    by blast
  with d have "\<exists>w''. run w' [Change (lit ''again''), Submit 3000] = Some w''
           \<and> messages (ui w'') = messages (ui w') @
                [\<lparr>msg_id = lit ''3000'', role = User, content = JString (lit ''again'')\<rparr>]
           \<and> sent w'' = sent w' @ [fetchRequest (lit ''again'')]
           \<and> isLoading (ui w'')"
    by simp
  with r f s m e l t show ?thesis by blast
qed

text \<open>
  C9. The transcript is append-only (\<open>step_messages_extend\<close>), and its ids are
  distinct while the clock advances (\<open>ids_distinct_if_clock_advances\<close>). But the ids are
  clock readings and can coincide: a rejection handled in the millisecond of the submission
  gets the id of the next millisecond, which a submission made in that millisecond gets
  too. The ids of the three messages of this run are \<open>1000\<close>, \<open>1001\<close> and \<open>1001\<close>.
\<close>

theorem message_ids_collide:
  "map_option (map msg_id \<circ> messages \<circ> ui)
     (run init [Change (lit ''a''), Submit 1000, FetchRejects 0 (lit ''Failed to fetch'') 1000,
                Change (lit ''b''), Submit 1001]) =
     Some [lit ''1000'', lit ''1001'', lit ''1001'']
   \<and> \<not> distinct [lit ''1000'', lit ''1001'', lit ''1001'']"
  by (simp add: run_defs)

text \<open>
  C10. An accepted submission clears the draft; in every reachable state the draft is
  empty while a request is in flight, and empty when the submission completes, whether
  with a reply, an error response or a rejection.
\<close>

theorem draft_stays_cleared:
  assumes "reachable w"
  shows "(trim (input (ui w)) \<noteq> [] \<and> \<not> isLoading (ui w) \<longrightarrow> input (ui (handleSubmit now w)) = [])
       \<and> (isLoading (ui w) \<longrightarrow> input (ui w) = [])
       \<and> (\<forall>e w'. step w e = Some w' \<and> completes e \<longrightarrow> input (ui w') = [])"
proof -
  from assms have inv: "invariant w" by (rule reachable_invariant)
  have a: "trim (input (ui w)) \<noteq> [] \<and> \<not> isLoading (ui w) \<longrightarrow> input (ui (handleSubmit now w)) = []"
    by (simp add: handleSubmit_accepts)
  have b: "isLoading (ui w) \<longrightarrow> input (ui w) = []"
    using inv unfolding invariant_def by blast
  have l: "isLoading (ui w) \<longleftrightarrow> pending w \<noteq> []"
    using inv unfolding invariant_def by blast
  have c: "\<forall>e w'. step w e = Some w' \<and> completes e \<longrightarrow> input (ui w') = []"
  proof (intro allI impI)
    fix e w'
    assume h: "step w e = Some w' \<and> completes e"
    then have "pending w \<noteq> []"
      by (cases e) (auto simp: frameAt_def split: if_splits option.splits)
    with l b have "input (ui w) = []" by blast
    with step_completes_idle [of w e w'] h show "input (ui w') = []" by simp
  qed
  from a b c show ?thesis by blast
qed

text \<open>C10 at a concrete run.\<close>

theorem draft_stays_cleared_witness:
  "\<exists>w w'. run init [Change (lit ''hi''), Submit 1000] = Some w \<and> reachable w
     \<and> isLoading (ui w) \<and> input (ui w) = []
     \<and> step w (FetchRejects 0 (lit ''Failed to fetch'') 1500) = Some w'
     \<and> completes (FetchRejects 0 (lit ''Failed to fetch'') 1500)
     \<and> input (ui w') = []"
proof -
  let ?w = "handleSubmit 1000 (init\<lparr>ui := setInput (lit ''hi'') (ui init)\<rparr>)"
  have r: "run init [Change (lit ''hi''), Submit 1000] = Some ?w"
    by (simp add: init_def)
  have l: "isLoading (ui ?w)"
    by (simp add: run_defs)
  have "step ?w (FetchRejects 0 (lit ''Failed to fetch'') 1500) \<noteq> None"
    by (simp add: run_defs)
  then obtain w' where s: "step ?w (FetchRejects 0 (lit ''Failed to fetch'') 1500) = Some w'"
    by auto
  have c: "completes (FetchRejects 0 (lit ''Failed to fetch'') 1500)"
    by simp
  from draft_stays_cleared [OF reachable_init_run [OF r], of 1001] l s c r reachable_init_run [OF r]
  show ?thesis by blast
qed

end
